theory Spec2Isabelle
  imports Main "HOL-Library.AList"
begin

section \<open>Documents\<close>

text \<open>
  The values \<^verbatim>\<open>yaml.safe_load\<close> produces, as far as the functions of
  \<^verbatim>\<open>yaml-diff-script.py\<close> tell them apart: \<^verbatim>\<open>None\<close>, the scalars
  \<^verbatim>\<open>bool\<close>, \<^verbatim>\<open>int\<close> and \<^verbatim>\<open>str\<close>, \<^verbatim>\<open>dict\<close> and \<^verbatim>\<open>list\<close>.
  Floats and timestamps are left out. A mapping key, like a step of a path
  (\<^verbatim>\<open>List[Union[str, int]]\<close>), is a string or an integer. A \<^verbatim>\<open>dict\<close> is the list of
  its items in insertion order, read with \<open>map_of\<close> and written with \<open>AList.update\<close>,
  which keeps the place of a key that is present and appends a new one, as Python
  does. A Python \<^verbatim>\<open>dict\<close> has no two items with the same key; the theorems below hold
  for every item list. A document is a tree: two places of a document never share
  one mutable object, so an update in place is the rebuilt tree.
\<close>

datatype key = KStr string | KInt int

datatype scalar = SBool bool | SInt int | SStr string

datatype tree =
    PNone
  | Scalar scalar
  | Dict "(key \<times> tree) list"
  | List "tree list"

fun is_dict :: "tree \<Rightarrow> bool" where
  "is_dict (Dict kvs) = True"
| "is_dict d = False"

fun is_list :: "tree \<Rightarrow> bool" where
  "is_list (List xs) = True"
| "is_list d = False"

fun is_str :: "key \<Rightarrow> bool" where
  "is_str (KStr s) = True"
| "is_str (KInt i) = False"

fun items :: "tree \<Rightarrow> (key \<times> tree) list" where
  "items (Dict kvs) = kvs"
| "items d = []"

fun elems :: "tree \<Rightarrow> tree list" where
  "elems (List xs) = xs"
| "elems d = []"

section \<open>Pruning\<close>

text \<open>
  The test \<^verbatim>\<open>x in ({}, [], None)\<close> of lines 46, 49 and 69: \<open>x\<close> equals the empty dict,
  the empty list or \<^verbatim>\<open>None\<close>. No scalar does (\<^verbatim>\<open>0 == []\<close>, \<^verbatim>\<open>'' == {}\<close> and
  \<^verbatim>\<open>False == None\<close> are all false).
\<close>

fun is_empty :: "tree \<Rightarrow> bool" where
  "is_empty (Dict kvs) = (kvs = [])"
| "is_empty (List xs) = (xs = [])"
| "is_empty PNone = True"
| "is_empty (Scalar s) = False"

text \<open>
  \<^verbatim>\<open>remove_empty_structures\<close>, lines 42-51: a dict comprehension and a list comprehension
  that keep the children whose pruned value is not empty, pruned; any other value is
  returned as it is.
\<close>

fun remove_empty_structures :: "tree \<Rightarrow> tree" where
  "remove_empty_structures (Dict kvs) =
     Dict (map (\<lambda>kv. (fst kv, remove_empty_structures (snd kv)))
            (filter (\<lambda>kv. \<not> is_empty (remove_empty_structures (snd kv))) kvs))"
| "remove_empty_structures (List xs) =
     List (map remove_empty_structures
            (filter (\<lambda>item. \<not> is_empty (remove_empty_structures item)) xs))"
| "remove_empty_structures d = d"

section \<open>Intersection\<close>

text \<open>
  Python's \<^verbatim>\<open>==\<close> on documents: \<^verbatim>\<open>True == 1\<close> and \<^verbatim>\<open>False == 0\<close>, two lists are
  equal when their elements are, in order, and two dicts when they have as many
  items and every key of the first has an equal value in the second.
\<close>

fun scalar_eq :: "scalar \<Rightarrow> scalar \<Rightarrow> bool" where
  "scalar_eq (SBool a) (SBool b) = (a = b)"
| "scalar_eq (SInt a) (SInt b) = (a = b)"
| "scalar_eq (SStr a) (SStr b) = (a = b)"
| "scalar_eq (SBool a) (SInt b) = ((if a then 1 else 0) = b)"
| "scalar_eq (SInt a) (SBool b) = (a = (if b then 1 else 0))"
| "scalar_eq a b = False"

fun py_eq :: "tree \<Rightarrow> tree \<Rightarrow> bool" where
  "py_eq PNone PNone = True"
| "py_eq (Scalar a) (Scalar b) = scalar_eq a b"
| "py_eq (List xs) (List ys) = list_all2 py_eq xs ys"
| "py_eq (Dict a) (Dict b) =
     (length a = length b \<and>
      list_all (\<lambda>kv. case map_of b (fst kv) of None \<Rightarrow> False | Some w \<Rightarrow> py_eq (snd kv) w) a)"
| "py_eq a b = False"

text \<open>
  \<^verbatim>\<open>zip(*data_list)\<close>, line 67: the rows of first, second, ... elements, until the
  shortest input is exhausted.
\<close>

function zip_star :: "'a list list \<Rightarrow> 'a list list" where
  "zip_star xss =
     (if xss = [] \<or> [] \<in> set xss then [] else map hd xss # zip_star (map tl xss))"
  by pat_completeness auto
termination
proof (relation "measure (\<lambda>xss. length (hd xss))")
  fix xss :: "'a list list"
  assume "\<not> (xss = [] \<or> [] \<in> set xss)"
  then have "hd xss \<noteq> []" and "xss \<noteq> []"
    by (auto dest: hd_in_set)
  then show "(map tl xss, xss) \<in> measure (\<lambda>xss. length (hd xss))"
    by (simp add: hd_map)
qed simp

text \<open>
  \<^verbatim>\<open>reduce(set.intersection, (set(d.keys()) for d in data_list))\<close>, line 59. A set is a
  list without repetition; the order in which Python goes through \<^verbatim>\<open>common_keys\<close> is
  not specified, here it is the order of the first document's keys.
\<close>

definition key_set :: "tree \<Rightarrow> key list" where
  "key_set d = remdups (map fst (items d))"

definition set_intersection :: "key list \<Rightarrow> key list \<Rightarrow> key list" where
  "set_intersection a b = filter (\<lambda>k. k \<in> set b) a"

definition common_keys :: "tree list \<Rightarrow> key list" where
  "common_keys data_list =
     foldl set_intersection (key_set (hd data_list)) (map key_set (tl data_list))"

text \<open>\<^verbatim>\<open>[d[k] for d in data_list if k in d]\<close>, line 61.\<close>

definition values_at :: "key \<Rightarrow> tree list \<Rightarrow> tree list" where
  "values_at k data_list = List.map_filter (\<lambda>d. map_of (items d) k) data_list"

text \<open>
  What the termination of \<^verbatim>\<open>deep_intersection\<close> needs: each recursive call is on a list
  whose first element is a child of the first document.
\<close>

declare zip_star.simps [simp del]

lemma zip_star_elem:
  "row \<in> set (zip_star xss) \<Longrightarrow>
     xss \<noteq> [] \<and> length row = length xss \<and> (\<forall>j<length xss. row ! j \<in> set (xss ! j))"
proof (induction xss rule: zip_star.induct)
  case (1 xss)
  show ?case
  proof (cases "xss = [] \<or> [] \<in> set xss")
    case True
    with "1.prems" show ?thesis by (simp add: zip_star.simps)
  next
    case False
    then have ne: "xss \<noteq> []" and nn: "\<forall>xs\<in>set xss. xs \<noteq> []" by auto
    from "1.prems" False have "row = map hd xss \<or> row \<in> set (zip_star (map tl xss))"
      by (subst (asm) zip_star.simps) auto
    then show ?thesis
    proof
      assume "row = map hd xss"
      with ne nn show ?thesis by (auto simp: all_set_conv_all_nth)
    next
      assume "row \<in> set (zip_star (map tl xss))"
      with "1.IH" False have "length row = length xss
        \<and> (\<forall>j<length xss. row ! j \<in> set (map tl xss ! j))" by auto
      with ne nn show ?thesis
        by (auto simp: all_set_conv_all_nth dest: list.set_sel(2))
    qed
  qed
qed

lemma size_dict_value: "map_of kvs k = Some v \<Longrightarrow> size v < size (Dict kvs)"
  by (induction kvs) (auto split: if_splits)

lemma size_list_elem: "x \<in> set xs \<Longrightarrow> size x < size (List xs)"
  by (induction xs) auto

lemma set_foldl_intersection:
  "set (foldl set_intersection ks kss) = set ks \<inter> (\<Inter>b\<in>set kss. set b)"
  by (induction kss arbitrary: ks) (auto simp: set_intersection_def)

lemma distinct_foldl_intersection:
  "distinct ks \<Longrightarrow> distinct (foldl set_intersection ks kss)"
  by (induction kss arbitrary: ks) (auto simp: set_intersection_def)

lemma set_common_keys:
  "ds \<noteq> [] \<Longrightarrow> set (common_keys ds) = (\<Inter>d\<in>set ds. fst ` set (items d))"
  by (cases ds) (auto simp: common_keys_def set_foldl_intersection key_set_def)

lemma distinct_common_keys: "distinct (common_keys ds)"
  by (simp add: common_keys_def distinct_foldl_intersection key_set_def)

lemma hd_values_at:
  assumes "ds \<noteq> []" and "k \<in> set (common_keys ds)"
  shows "\<exists>v. map_of (items (hd ds)) k = Some v \<and> hd (values_at k ds) = v"
proof -
  from assms obtain d ds' where ds: "ds = d # ds'" by (cases ds) auto
  from assms have "k \<in> fst ` set (items d)"
    by (auto simp: set_common_keys ds)
  then obtain v where "map_of (items d) k = Some v"
    by (metis domD dom_map_of_conv_image_fst)
  then show ?thesis by (simp add: ds values_at_def List.map_filter_simps)
qed

text \<open>
  \<^verbatim>\<open>deep_intersection\<close>, lines 53-75. The loop of lines 66-70 appends the non-empty
  intersections of the rows in order: a \<open>filter\<close> of a \<open>map\<close>.
\<close>

function deep_intersection :: "tree list \<Rightarrow> tree" where
  "deep_intersection data_list =
     (if data_list = [] then PNone
      else if list_all is_dict data_list then
        remove_empty_structures
          (Dict (map (\<lambda>k. (k, deep_intersection (values_at k data_list)))
                  (common_keys data_list)))
      else if list_all is_list data_list then
        (let result = filter (\<lambda>x. \<not> is_empty x)
                        (map deep_intersection (zip_star (map elems data_list)))
         in if result = [] then PNone else List result)
      else if list_all (\<lambda>d. py_eq d (hd data_list)) data_list then hd data_list
      else PNone)"
  by pat_completeness auto
termination
proof (relation "measure (\<lambda>ds. size (hd ds))")
  fix data_list :: "tree list" and k
  assume ne: "data_list \<noteq> []" and dicts: "list_all is_dict data_list"
    and k: "k \<in> set (common_keys data_list)"
  from hd_values_at [OF ne k] obtain v where
    v: "map_of (items (hd data_list)) k = Some v" "hd (values_at k data_list) = v" by blast
  from ne dicts obtain kvs where "hd data_list = Dict kvs"
    by (cases data_list; cases "hd data_list") auto
  with v show "(values_at k data_list, data_list) \<in> measure (\<lambda>ds. size (hd ds))"
    by (auto dest: size_dict_value)
next
  fix data_list :: "tree list" and row
  assume ne: "data_list \<noteq> []" and lists: "list_all is_list data_list"
    and row: "row \<in> set (zip_star (map elems data_list))"
  from zip_star_elem [OF row] ne have "row \<noteq> []" "row ! 0 \<in> set (elems (data_list ! 0))"
    by auto
  then have "hd row \<in> set (elems (hd data_list))"
    using ne by (simp add: hd_conv_nth)
  moreover from ne lists obtain xs where "hd data_list = List xs"
    by (cases data_list; cases "hd data_list") auto
  ultimately show "(row, data_list) \<in> measure (\<lambda>ds. size (hd ds))"
    by (auto dest: size_list_elem)
qed simp

declare deep_intersection.simps [simp del]

section \<open>Paths\<close>

text \<open>
  The exceptions the path functions can raise. \<^verbatim>\<open>KeyError\<close> and \<^verbatim>\<open>IndexError\<close> are the
  subclasses of \<^verbatim>\<open>LookupError\<close>; \<^verbatim>\<open>TypeError\<close> and \<^verbatim>\<open>AttributeError\<close> are not.
\<close>

datatype error = KeyError | IndexError | TypeError | AttributeError


definition and_then :: "error + 'a \<Rightarrow> ('a \<Rightarrow> error + 'b) \<Rightarrow> error + 'b" where
  "and_then r f = (case r of Inl e \<Rightarrow> Inl e | Inr x \<Rightarrow> f x)"

text \<open>
  The position a Python index denotes in a sequence of length \<open>n\<close>: a negative index
  counts from the end.
\<close>

definition py_index :: "nat \<Rightarrow> int \<Rightarrow> nat option" where
  "py_index n i =
     (if 0 \<le> i \<and> i < int n then Some (nat i)
      else if i < 0 \<and> - int n \<le> i then Some (nat (int n + i))
      else None)"

text \<open>
  \<^verbatim>\<open>d[key]\<close>. A dict looks the key up, whatever its type. A list takes an integer
  index and raises \<^verbatim>\<open>TypeError\<close> on a string. A string is indexed by integers too and
  gives a one-character string. \<^verbatim>\<open>None\<close>, numbers and booleans are not subscriptable.
\<close>

fun get_item :: "tree \<Rightarrow> key \<Rightarrow> error + tree" where
  "get_item (Dict kvs) k = (case map_of kvs k of None \<Rightarrow> Inl KeyError | Some v \<Rightarrow> Inr v)"
| "get_item (List xs) (KInt i) =
     (case py_index (length xs) i of None \<Rightarrow> Inl IndexError | Some j \<Rightarrow> Inr (xs ! j))"
| "get_item (List xs) (KStr s) = Inl TypeError"
| "get_item (Scalar (SStr s)) (KInt i) =
     (case py_index (length s) i of None \<Rightarrow> Inl IndexError
      | Some j \<Rightarrow> Inr (Scalar (SStr [s ! j])))"
| "get_item (Scalar (SStr s)) (KStr t) = Inl TypeError"
| "get_item (Scalar (SBool b)) k = Inl TypeError"
| "get_item (Scalar (SInt n)) k = Inl TypeError"
| "get_item PNone k = Inl TypeError"

text \<open>\<^verbatim>\<open>d[key] = v\<close>; a string does not support item assignment.\<close>

fun set_item :: "tree \<Rightarrow> key \<Rightarrow> tree \<Rightarrow> error + tree" where
  "set_item (Dict kvs) k v = Inr (Dict (AList.update k v kvs))"
| "set_item (List xs) (KInt i) v =
     (case py_index (length xs) i of None \<Rightarrow> Inl IndexError | Some j \<Rightarrow> Inr (List (xs[j := v])))"
| "set_item (List xs) (KStr s) v = Inl TypeError"
| "set_item (Scalar s) k v = Inl TypeError"
| "set_item PNone k v = Inl TypeError"

text \<open>
  The dict after \<^verbatim>\<open>d.setdefault(key, x)\<close>; only a dict has the method. The value the
  call returns is then \<^verbatim>\<open>d[key]\<close>.
\<close>

fun setdefault :: "tree \<Rightarrow> key \<Rightarrow> tree \<Rightarrow> error + tree" where
  "setdefault (Dict kvs) k x =
     Inr (Dict (case map_of kvs k of None \<Rightarrow> kvs @ [(k, x)] | Some v \<Rightarrow> kvs))"
| "setdefault d k x = Inl AttributeError"

text \<open>
  \<^verbatim>\<open>while len(d) <= key: d.append(x)\<close>, lines 88-89 and 95-96. \<^verbatim>\<open>len\<close> raises
  \<^verbatim>\<open>TypeError\<close> on \<^verbatim>\<open>None\<close>, numbers and booleans; a dict and a string have a length but
  no \<^verbatim>\<open>append\<close>, which is only called when the loop is entered.
\<close>

fun pad_to :: "tree \<Rightarrow> int \<Rightarrow> tree \<Rightarrow> error + tree" where
  "pad_to (List xs) i x = Inr (List (xs @ replicate (nat (i + 1 - int (length xs))) x))"
| "pad_to (Dict kvs) i x = (if int (length kvs) \<le> i then Inl AttributeError else Inr (Dict kvs))"
| "pad_to (Scalar (SStr s)) i x =
     (if int (length s) \<le> i then Inl AttributeError else Inr (Scalar (SStr s)))"
| "pad_to (Scalar (SBool b)) i x = Inl TypeError"
| "pad_to (Scalar (SInt n)) i x = Inl TypeError"
| "pad_to PNone i x = Inl TypeError"

text \<open>
  The container \<open>d\<close> once its child at \<open>key\<close> has been updated in place to \<open>c\<close>. A
  string is immutable and its characters are fresh objects: nothing changes.
\<close>

fun replace_child :: "tree \<Rightarrow> key \<Rightarrow> tree \<Rightarrow> tree" where
  "replace_child (Dict kvs) k c = Dict (AList.update k c kvs)"
| "replace_child (List xs) (KInt i) c =
     (case py_index (length xs) i of None \<Rightarrow> List xs | Some j \<Rightarrow> List (xs[j := c]))"
| "replace_child d k c = d"

text \<open>\<^verbatim>\<open>{} if isinstance(path[i+1], str) else []\<close>, lines 86 and 89.\<close>

fun default_for :: "key \<Rightarrow> tree" where
  "default_for (KStr s) = Dict []"
| "default_for (KInt i) = List []"

text \<open>\<^verbatim>\<open>get_nested\<close>, lines 99-103.\<close>

fun get_nested :: "tree \<Rightarrow> key list \<Rightarrow> error + tree" where
  "get_nested d [] = Inr d"
| "get_nested d (key # path) =
     (case get_item d key of Inl e \<Rightarrow> Inl e | Inr c \<Rightarrow> get_nested c path)"

text \<open>
  \<^verbatim>\<open>set_nested\<close>, lines 82-97, returning the updated document. The loop over
  \<^verbatim>\<open>path[:-1]\<close> is the recursion on a path of two steps or more, where \<open>nxt\<close> is
  \<^verbatim>\<open>path[i+1]\<close>; the last step is the path of one step; \<^verbatim>\<open>path[-1]\<close> raises \<^verbatim>\<open>IndexError\<close>
  on the empty path. When a step raises, the result is the error and the partial
  update is not returned.
\<close>

fun set_nested :: "tree \<Rightarrow> key list \<Rightarrow> tree \<Rightarrow> error + tree" where
  "set_nested d [] v = Inl IndexError"
| "set_nested d [KStr s] v = set_item d (KStr s) v"
| "set_nested d [KInt i] v =
     (case pad_to d i PNone of Inl e \<Rightarrow> Inl e | Inr d' \<Rightarrow> set_item d' (KInt i) v)"
| "set_nested d (key # nxt # path) v =
     (case (case key of KStr s \<Rightarrow> setdefault d key (default_for nxt)
                      | KInt i \<Rightarrow> pad_to d i (default_for nxt)) of
        Inl e \<Rightarrow> Inl e
      | Inr d' \<Rightarrow>
          (case get_item d' key of
             Inl e \<Rightarrow> Inl e
           | Inr child \<Rightarrow>
               (case set_nested child (nxt # path) v of
                  Inl e \<Rightarrow> Inl e
                | Inr child' \<Rightarrow> Inr (replace_child d' key child'))))"



section \<open>Path strings\<close>

text \<open>
  \<^verbatim>\<open>parse_path\<close>, lines 77-80, scans a path string with the regular expression
  \<^verbatim>\<open>\[\'([^\']*)\'?\]|\[(\d+)\]\<close>. Characters are bytes, and \<^verbatim>\<open>\d\<close> is an ASCII digit.
\<close>

definition is_digit :: "char \<Rightarrow> bool" where
  "is_digit c = (c \<in> set ''0123456789'')"

definition quote :: char where
  "quote = CHR 0x27"

text \<open>The last position of a closing bracket in a string.\<close>
fun last_bracket :: "string \<Rightarrow> nat option" where
  "last_bracket [] = None"
| "last_bracket (c # cs) =
     (case last_bracket cs of Some m \<Rightarrow> Some (Suc m)
      | None \<Rightarrow> if c = CHR '']'' then Some 0 else None)"

text \<open>
  The first alternative at the start of a string: an opening bracket, a quote, the
  longest run of non-quote characters, then a quote and a closing bracket; failing
  that, the matcher backtracks into the run to its last closing bracket. The result
  is the group and the rest of the string after the match.
\<close>

fun match_key :: "string \<Rightarrow> (string \<times> string) option" where
  "match_key (a # b # str) =
     (if a = CHR ''['' \<and> b = quote then
        (let run = takeWhile (\<lambda>c. c \<noteq> quote) str;
             rest = dropWhile (\<lambda>c. c \<noteq> quote) str
         in if take 2 rest = [quote, CHR '']''] then Some (run, drop 2 rest)
            else (case last_bracket run of None \<Rightarrow> None
                  | Some m \<Rightarrow> Some (take m run, drop (Suc m) run @ rest)))
      else None)"
| "match_key str = None"

text \<open>The second alternative: an opening bracket, digits, a closing bracket.\<close>

fun match_index :: "string \<Rightarrow> (string \<times> string) option" where
  "match_index (a # str) =
     (if a = CHR ''['' then
        (let run = takeWhile is_digit str; rest = dropWhile is_digit str
         in if run \<noteq> [] \<and> take 1 rest = [CHR '']''] then Some (run, drop 1 rest) else None)
      else None)"
| "match_index str = None"

lemma last_bracket_less: "last_bracket run = Some m \<Longrightarrow> m < length run"
  by (induction run arbitrary: m) (auto split: option.splits if_splits)

lemma match_key_shorter: "match_key str = Some (s, rest) \<Longrightarrow> length rest < length str"
proof (induction str rule: match_key.induct)
  case (1 a b str)
  have len: "length (takeWhile (\<lambda>c. c \<noteq> quote) str) + length (dropWhile (\<lambda>c. c \<noteq> quote) str)
      = length str"
    by (metis length_append takeWhile_dropWhile_id)
  from 1 len show ?case
    by (auto simp: Let_def split: if_splits option.splits dest!: last_bracket_less)
qed simp_all

lemma match_index_shorter: "match_index str = Some (s, rest) \<Longrightarrow> length rest < length str"
proof (induction str rule: match_index.induct)
  case (1 a str)
  have "length (dropWhile is_digit str) \<le> length str"
    by (rule length_dropWhile_le)
  with 1 show ?case by (auto simp: Let_def split: if_splits)
qed simp_all

text \<open>
  \<^verbatim>\<open>re.findall\<close>: the matches from left to right, without overlap, each as the pair of
  its two groups, the group of the alternative not taken being empty.
\<close>

function findall :: "string \<Rightarrow> (string \<times> string) list" where
  "findall [] = []"
| "findall (c # cs) =
     (case match_key (c # cs) of
        Some (s, rest) \<Rightarrow> (s, []) # findall rest
      | None \<Rightarrow>
          (case match_index (c # cs) of
             Some (i, rest) \<Rightarrow> ([], i) # findall rest
           | None \<Rightarrow> findall cs))"
  by pat_completeness auto
termination
  by (relation "measure length")
     (auto dest: match_key_shorter match_index_shorter
           simp del: match_key.simps match_index.simps)

text \<open>\<^verbatim>\<open>[int(i) if i else s for s, i in components]\<close>, line 80.\<close>

definition py_int :: "string \<Rightarrow> int" where
  "py_int ds = foldl (\<lambda>n c. 10 * n + (int (of_char c) - 48)) 0 ds"

definition parse_path :: "string \<Rightarrow> key list" where
  "parse_path path = map (\<lambda>(s, i). if i \<noteq> [] then KInt (py_int i) else KStr s) (findall path)"

section \<open>Overlays\<close>

text \<open>
  The result of \<^verbatim>\<open>DeepDiff(base, full, ignore_order=True)\<close>, as far as \<^verbatim>\<open>create_overlay\<close>
  can read it. \<^verbatim>\<open>DeepDiff\<close> is an external library: the functions below take its
  report, or the function that computes it, as a parameter. A category that is
  missing from the report is an empty list; each change carries its path string, and
  a changed value or type its old and its new value.
\<close>

record diff_report =
  dictionary_item_added :: "string list"
  dictionary_item_removed :: "string list"
  values_changed :: "(string \<times> tree \<times> tree) list"
  iterable_item_added :: "(string \<times> tree) list"
  iterable_item_removed :: "(string \<times> tree) list"
  type_changes :: "(string \<times> tree \<times> tree) list"

text \<open>A \<^verbatim>\<open>for\<close> loop over a list that stops at the first exception.\<close>

fun for_each :: "('s \<Rightarrow> 'a \<Rightarrow> error + 's) \<Rightarrow> 'a list \<Rightarrow> 's \<Rightarrow> error + 's" where
  "for_each body [] s = Inr s"
| "for_each body (x # xs) s = and_then (body s x) (for_each body xs)"

text \<open>
  The document once the object found at \<open>path\<close> has been changed in place into \<open>new\<close>.
\<close>

fun put_nested :: "tree \<Rightarrow> key list \<Rightarrow> tree \<Rightarrow> tree" where
  "put_nested d [] new = new"
| "put_nested d (key # path) new =
     (case get_item d key of Inl e \<Rightarrow> d
      | Inr child \<Rightarrow> replace_child d key (put_nested child path new))"

text \<open>The body of the loop of lines 111-114.\<close>

definition add_dictionary_item :: "tree \<Rightarrow> tree \<Rightarrow> string \<Rightarrow> error + tree" where
  "add_dictionary_item full overlay item =
     (let path = parse_path item
      in and_then (get_nested full path) (\<lambda>v. set_nested overlay path v))"

text \<open>The body of the loops of lines 117-119 and 134-136.\<close>

definition change_value :: "tree \<Rightarrow> string \<times> tree \<times> tree \<Rightarrow> error + tree" where
  "change_value overlay entry =
     (case entry of (item, old_value, new_value) \<Rightarrow>
        set_nested overlay (parse_path item) new_value)"

text \<open>
  Lines 129-131 on the list \<open>parent\<close>. Comparing \<^verbatim>\<open>len(parent)\<close> with a string raises
  \<^verbatim>\<open>TypeError\<close>.
\<close>

fun fill :: "tree \<Rightarrow> key \<Rightarrow> tree \<Rightarrow> error + tree" where
  "fill parent (KStr s) v = Inl TypeError"
| "fill parent (KInt i) v = and_then (pad_to parent i PNone) (\<lambda>p. set_item p (KInt i) v)"

text \<open>
  The body of the loop of lines 122-131. \<^verbatim>\<open>path[-1]\<close> raises \<^verbatim>\<open>IndexError\<close> on an empty
  path. The list \<open>parent\<close> is an object inside the overlay (line 125) or is put there
  by \<^verbatim>\<open>set_nested\<close> (line 128), so filling it changes the overlay at \<open>parent_path\<close>.
\<close>

definition add_iterable_item :: "tree \<Rightarrow> string \<times> tree \<Rightarrow> error + tree" where
  "add_iterable_item overlay entry =
     (case entry of (item, v) \<Rightarrow>
        (let path = parse_path item in
         if path = [] then Inl IndexError
         else
           (let parent_path = butlast path; index = last path in
            and_then (if parent_path \<noteq> [] then get_nested overlay parent_path else Inr overlay)
              (\<lambda>parent.
                 if is_list parent then
                   and_then (fill parent index v)
                     (\<lambda>parent'. Inr (put_nested overlay parent_path parent'))
                 else
                   and_then (set_nested overlay parent_path (List []))
                     (\<lambda>overlay'. and_then (fill (List []) index v)
                        (\<lambda>parent'. Inr (put_nested overlay' parent_path parent')))))))"

text \<open>
  \<^verbatim>\<open>create_overlay\<close>, lines 105-138, from the diff report. The values written into the
  overlay are those of \<open>full\<close>, taken as copies.
\<close>

definition create_overlay_from :: "diff_report \<Rightarrow> tree \<Rightarrow> error + tree" where
  "create_overlay_from diff full =
     and_then (for_each (add_dictionary_item full) (dictionary_item_added diff) (Dict []))
       (\<lambda>overlay. and_then (for_each change_value (values_changed diff) overlay)
          (\<lambda>overlay. and_then (for_each add_iterable_item (iterable_item_added diff) overlay)
             (\<lambda>overlay. and_then (for_each change_value (type_changes diff) overlay)
                (\<lambda>overlay. Inr (remove_empty_structures overlay)))))"

definition create_overlay :: "(tree \<Rightarrow> tree \<Rightarrow> diff_report) \<Rightarrow> tree \<Rightarrow> tree \<Rightarrow> error + tree" where
  "create_overlay DeepDiff base full = create_overlay_from (DeepDiff base full) full"

text \<open>A list comprehension that stops at the first exception.\<close>

fun map_results :: "('a \<Rightarrow> error + 'b) \<Rightarrow> 'a list \<Rightarrow> error + 'b list" where
  "map_results f [] = Inr []"
| "map_results f (x # xs) =
     and_then (f x) (\<lambda>y. and_then (map_results f xs) (\<lambda>ys. Inr (y # ys)))"

text \<open>
  \<^verbatim>\<open>generate_base_and_overlays\<close>, lines 140-150. \<open>data_list\<close> is the list of the results
  of \<^verbatim>\<open>read_yaml\<close>, which returns \<^verbatim>\<open>None\<close> for a file it cannot read or parse.
\<close>

definition generate_base_and_overlays ::
  "(tree \<Rightarrow> tree \<Rightarrow> diff_report) \<Rightarrow> tree list \<Rightarrow> error + tree \<times> tree list" where
  "generate_base_and_overlays DeepDiff data_list =
     (if PNone \<in> set data_list then Inr (PNone, [])
      else
        (let base = deep_intersection data_list
         in and_then (map_results (create_overlay DeepDiff base) data_list)
              (\<lambda>overlays. Inr (base, overlays))))"


text \<open>The report of a diff that finds no difference.\<close>

definition no_differences :: diff_report where
  "no_differences = \<lparr>dictionary_item_added = [], dictionary_item_removed = [],
     values_changed = [], iterable_item_added = [], iterable_item_removed = [],
     type_changes = []\<rparr>"



section \<open>Containment\<close>


text \<open>The length of the shortest input sequence.\<close>

definition shortest :: "tree list \<Rightarrow> nat" where
  "shortest data_list = Min (set (map (\<lambda>d. length (elems d)) data_list))"

text \<open>
  \<open>embeds P xs ys\<close>: the elements of \<open>xs\<close> are related by \<open>P\<close>, in order, to elements of
  \<open>ys\<close> at strictly increasing positions.
\<close>

fun embeds :: "('a \<Rightarrow> 'b \<Rightarrow> bool) \<Rightarrow> 'a list \<Rightarrow> 'b list \<Rightarrow> bool" where
  "embeds P [] ys = True"
| "embeds P (x # xs) [] = False"
| "embeds P (x # xs) (y # ys) = ((P x y \<and> embeds P xs ys) \<or> embeds P (x # xs) ys)"

lemma embeds_cong [fundef_cong]:
  "xs = xs' \<Longrightarrow> ys = ys' \<Longrightarrow> (\<And>x y. x \<in> set xs' \<Longrightarrow> y \<in> set ys' \<Longrightarrow> P x y = Q x y) \<Longrightarrow>
     embeds P xs ys = embeds Q xs' ys'"
proof -
  have "(\<And>x y. x \<in> set xs \<Longrightarrow> y \<in> set ys \<Longrightarrow> P x y = Q x y) \<Longrightarrow>
     embeds P xs ys = embeds Q xs ys"
    by (induction P xs ys rule: embeds.induct) auto
  then show "xs = xs' \<Longrightarrow> ys = ys' \<Longrightarrow> (\<And>x y. x \<in> set xs' \<Longrightarrow> y \<in> set ys' \<Longrightarrow> P x y = Q x y) \<Longrightarrow>
     embeds P xs ys = embeds Q xs' ys'" by simp
qed

text \<open>
  \<open>contained b d\<close>: the document \<open>d\<close> contains the substructure \<open>b\<close>. \<^verbatim>\<open>None\<close>, the
  absent base, is contained in everything; a scalar is contained in the values equal
  to it; a mapping in the mappings that have its keys with values containing its
  values; a sequence in the sequences into which it embeds.
\<close>

fun contained :: "tree \<Rightarrow> tree \<Rightarrow> bool" where
  "contained PNone d = True"
| "contained (Scalar s) d = py_eq d (Scalar s)"
| "contained (Dict kvs) d =
     (is_dict d \<and>
      list_all (\<lambda>kv. case map_of (items d) (fst kv) of None \<Rightarrow> False
                 | Some v \<Rightarrow> contained (snd kv) v) kvs)"
| "contained (List xs) d = (is_list d \<and> embeds contained xs (elems d))"




section \<open>Properties of pruning\<close>

text \<open>
  Claim C4. Pruning is idempotent: pruning the result of
  \<^verbatim>\<open>remove_empty_structures\<close> again changes nothing.
\<close>

theorem remove_empty_structures_idem:
  "remove_empty_structures (remove_empty_structures x) = remove_empty_structures x"
proof (induction x rule: remove_empty_structures.induct)
  case (1 kvs)
  have ih: "\<And>kv. kv \<in> set kvs \<Longrightarrow>
      remove_empty_structures (remove_empty_structures (snd kv)) = remove_empty_structures (snd kv)"
    using "1.IH" by force
  have "filter (\<lambda>x. \<not> is_empty (remove_empty_structures (snd x)) \<and>
             \<not> is_empty (remove_empty_structures (remove_empty_structures (snd x)))) kvs
      = filter (\<lambda>kv. \<not> is_empty (remove_empty_structures (snd kv))) kvs"
    by (rule filter_cong) (auto simp: ih)
  then show ?case
    by (auto simp: filter_map o_def ih)
next
  case (2 xs)
  have "filter (\<lambda>x. \<not> is_empty (remove_empty_structures x) \<and>
             \<not> is_empty (remove_empty_structures (remove_empty_structures x))) xs
      = filter (\<lambda>x. \<not> is_empty (remove_empty_structures x)) xs"
    by (rule filter_cong) (auto simp: "2.IH")
  then show ?case
    by (auto simp: filter_map o_def "2.IH")
qed simp_all

text \<open>
  Claim C9. \<^verbatim>\<open>remove_empty_structures\<close> returns \<^verbatim>\<open>None\<close> exactly when its argument
  is \<^verbatim>\<open>None\<close>; a mapping is returned as a mapping, a sequence as a sequence, both
  possibly empty, and a scalar is returned as it is.
\<close>

theorem remove_empty_structures_kind:
  "(remove_empty_structures x = PNone) = (x = PNone) \<and>
   is_dict (remove_empty_structures x) = is_dict x \<and>
   is_list (remove_empty_structures x) = is_list x \<and>
   remove_empty_structures (Scalar s) = Scalar s"
  by (cases x) simp_all

text \<open>
  Claim C1, as the code has it. A mapping or a sequence all of whose children
  are dropped is pruned to the empty mapping or the empty sequence, not to
  \<^verbatim>\<open>None\<close>; the deep intersection of \<^verbatim>\<open>{"x": {"y": 1}}\<close> and \<^verbatim>\<open>{"x": {"z": 2}}\<close> is
  the empty mapping.
\<close>

theorem prune_all_dropped:
  "(list_all (\<lambda>kv. is_empty (remove_empty_structures (snd kv))) kvs \<longrightarrow>
      remove_empty_structures (Dict kvs) = Dict []) \<and>
   (list_all (\<lambda>item. is_empty (remove_empty_structures item)) xs \<longrightarrow>
      remove_empty_structures (List xs) = List []) \<and>
   deep_intersection
     [Dict [(KStr ''x'', Dict [(KStr ''y'', Scalar (SInt 1))])],
      Dict [(KStr ''x'', Dict [(KStr ''z'', Scalar (SInt 2))])]] = Dict []"
proof (intro conjI impI)
  assume "list_all (\<lambda>kv. is_empty (remove_empty_structures (snd kv))) kvs"
  then have "filter (\<lambda>kv. \<not> is_empty (remove_empty_structures (snd kv))) kvs = []"
    by (simp add: list_all_iff filter_empty_conv)
  then show "remove_empty_structures (Dict kvs) = Dict []" by simp
next
  assume "list_all (\<lambda>item. is_empty (remove_empty_structures item)) xs"
  then have "filter (\<lambda>item. \<not> is_empty (remove_empty_structures item)) xs = []"
    by (simp add: list_all_iff filter_empty_conv)
  then show "remove_empty_structures (List xs) = List []" by simp
next
  show "deep_intersection
     [Dict [(KStr ''x'', Dict [(KStr ''y'', Scalar (SInt 1))])],
      Dict [(KStr ''x'', Dict [(KStr ''z'', Scalar (SInt 2))])]] = Dict []"
    by code_simp
qed

theorem prune_all_dropped_witness:
  "list_all (\<lambda>kv. is_empty (remove_empty_structures (snd kv))) [(KStr ''x'', Dict [])] \<and>
   remove_empty_structures (Dict [(KStr ''x'', Dict [])]) = Dict [] \<and>
   list_all (\<lambda>item. is_empty (remove_empty_structures item)) [List [], PNone] \<and>
   remove_empty_structures (List [List [], PNone]) = List []"
  using prune_all_dropped [of "[(KStr ''x'', Dict [])]" "[List [], PNone]"] by simp

text \<open>
  Claim C1 as stated fails: pruning \<^verbatim>\<open>{"x": {}}\<close> or \<^verbatim>\<open>[[]]\<close>, and intersecting the
  two documents of the example, does not give \<^verbatim>\<open>None\<close>.
\<close>

theorem prune_collapse_counterexample:
  "remove_empty_structures (Dict [(KStr ''x'', Dict [])]) \<noteq> PNone \<and>
   remove_empty_structures (List [List []]) \<noteq> PNone \<and>
   deep_intersection
     [Dict [(KStr ''x'', Dict [(KStr ''y'', Scalar (SInt 1))])],
      Dict [(KStr ''x'', Dict [(KStr ''z'', Scalar (SInt 2))])]] \<noteq> PNone"
  by code_simp

section \<open>Properties of the intersection\<close>

lemma Min_length_tl:
  assumes "xss \<noteq> []" and "[] \<notin> set xss"
  shows "Min (set (map length (map tl xss))) = Min (set (map length xss)) - 1"
proof -
  have "mono (\<lambda>n::nat. n - 1)" by (rule monoI) simp
  then have "Min (set (map length xss)) - 1 = Min ((\<lambda>n. n - 1) ` set (map length xss))"
    using assms by (intro mono_Min_commute) auto
  also have "(\<lambda>n. n - 1) ` set (map length xss) = set (map length (map tl xss))"
    by (auto simp: image_image)
  finally show ?thesis by simp
qed

lemma zip_star_nth:
  "xss \<noteq> [] \<Longrightarrow>
     zip_star xss = map (\<lambda>i. map (\<lambda>xs. xs ! i) xss) [0..<Min (set (map length xss))]"
proof (induction xss rule: zip_star.induct)
  case (1 xss)
  show ?case
  proof (cases "[] \<in> set xss")
    case True
    then have "Min (set (map length xss)) = 0"
      by (intro antisym Min_le) auto
    with True show ?thesis by (simp add: zip_star.simps)
  next
    case False
    let ?m = "Min (set (map length xss))"
    from False "1.prems" have pos: "0 < ?m" by (subst Min_gr_iff) auto
    have le: "?m \<le> length xs" if "xs \<in> set xss" for xs
      using that by (intro Min_le) auto
    have "zip_star xss = map hd xss # zip_star (map tl xss)"
      using False "1.prems" by (subst zip_star.simps) simp
    also have "zip_star (map tl xss) =
        map (\<lambda>i. map (\<lambda>xs. xs ! i) (map tl xss)) [0..<Min (set (map length (map tl xss)))]"
      using "1.IH" False "1.prems" by simp
    also have "\<dots> = map (\<lambda>i. map (\<lambda>xs. xs ! Suc i) xss) [0..<?m - 1]"
      unfolding Min_length_tl [OF "1.prems" False]
    proof (rule map_cong [OF refl])
      fix i assume "i \<in> set [0..<?m - 1]"
      then have "Suc i < ?m" by auto
      have "tl xs ! i = xs ! Suc i" if "xs \<in> set xss" for xs
      proof (rule nth_tl)
        from le [OF that] \<open>Suc i < ?m\<close> show "i < length (tl xs)" by simp
      qed
      then show "map (\<lambda>xs. xs ! i) (map tl xss) = map (\<lambda>xs. xs ! Suc i) xss" by simp
    qed
    also have "map hd xss = map (\<lambda>xs. xs ! 0) xss"
    proof (rule map_cong [OF refl])
      fix xs assume "xs \<in> set xss"
      with False have "xs \<noteq> []" by auto
      then show "hd xs = xs ! 0" by (rule hd_conv_nth)
    qed
    also have "map (\<lambda>xs. xs ! 0) xss # map (\<lambda>i. map (\<lambda>xs. xs ! Suc i) xss) [0..<?m - 1]
        = map (\<lambda>i. map (\<lambda>xs. xs ! i) xss) [0..<?m]"
    proof -
      have "[0..<?m] = 0 # map Suc [0..<?m - 1]"
        using pos by (metis Suc_pred' map_Suc_upt upt_conv_Cons)
      then show ?thesis by (simp add: o_def)
    qed
    finally show ?thesis .
  qed
qed

text \<open>
  Claim C3. For a non-empty list of inputs that are all sequences,
  \<^verbatim>\<open>deep_intersection\<close> intersects the \<open>i\<close>-th elements of all inputs, for \<open>i\<close> from 0
  to the shortest input length minus 1, removes every element whose intersection is
  \<^verbatim>\<open>None\<close>, \<^verbatim>\<open>{}\<close> or \<^verbatim>\<open>[]\<close> (the later elements move up), and returns the sequence of
  the remaining ones, or \<^verbatim>\<open>None\<close> when none remains.
\<close>

theorem deep_intersection_sequences:
  assumes "data_list \<noteq> []" and "list_all is_list data_list"
  shows "deep_intersection data_list =
     (let result = filter (\<lambda>x. \<not> is_empty x)
                     (map (\<lambda>i. deep_intersection (map (\<lambda>d. elems d ! i) data_list))
                        [0..<shortest data_list])
      in if result = [] then PNone else List result)"
proof -
  from assms have "\<not> list_all is_dict data_list"
    by (cases data_list; cases "hd data_list") auto
  moreover have "map deep_intersection (zip_star (map elems data_list)) =
      map (\<lambda>i. deep_intersection (map (\<lambda>d. elems d ! i) data_list)) [0..<shortest data_list]"
    using assms(1) by (simp add: zip_star_nth shortest_def o_def)
  ultimately show ?thesis
    using assms by (subst deep_intersection.simps) simp
qed

text \<open>
  The intersection of \<^verbatim>\<open>[1, 2, 3]\<close> and \<^verbatim>\<open>[9, 2, 3, 4]\<close>: index 0 disagrees and is removed,
  index 3 is beyond the shorter input.
\<close>

theorem deep_intersection_sequences_witness:
  "[List [Scalar (SInt 1), Scalar (SInt 2), Scalar (SInt 3)],
    List [Scalar (SInt 9), Scalar (SInt 2), Scalar (SInt 3), Scalar (SInt 4)]] \<noteq> [] \<and>
   list_all is_list
     [List [Scalar (SInt 1), Scalar (SInt 2), Scalar (SInt 3)],
      List [Scalar (SInt 9), Scalar (SInt 2), Scalar (SInt 3), Scalar (SInt 4)]] \<and>
   deep_intersection
     [List [Scalar (SInt 1), Scalar (SInt 2), Scalar (SInt 3)],
      List [Scalar (SInt 9), Scalar (SInt 2), Scalar (SInt 3), Scalar (SInt 4)]] =
   List [Scalar (SInt 2), Scalar (SInt 3)]"
proof -
  let ?docs = "[List [Scalar (SInt 1), Scalar (SInt 2), Scalar (SInt 3)],
      List [Scalar (SInt 9), Scalar (SInt 2), Scalar (SInt 3), Scalar (SInt 4)]]"
  have ne: "?docs \<noteq> []" by simp
  have lists: "list_all is_list ?docs" by simp
  have "(let result = filter (\<lambda>x. \<not> is_empty x)
                     (map (\<lambda>i. deep_intersection (map (\<lambda>d. elems d ! i) ?docs))
                        [0..<shortest ?docs])
      in if result = [] then PNone else List result) = List [Scalar (SInt 2), Scalar (SInt 3)]"
    by code_simp
  with deep_intersection_sequences [OF ne lists]
  have "deep_intersection ?docs = List [Scalar (SInt 2), Scalar (SInt 3)]"
    by (rule trans)
  with ne lists show ?thesis by blast
qed

lemma embeds_Cons_right: "embeds P xs ys \<Longrightarrow> embeds P xs (y # ys)"
  by (cases xs) auto

lemma embeds_filter_map:
  "embeds P xs ys \<Longrightarrow> (\<And>x y. x \<in> set xs \<Longrightarrow> P x y \<Longrightarrow> Q (f x) y) \<Longrightarrow>
     embeds Q (map f (filter p xs)) ys"
proof (induction P xs ys rule: embeds.induct)
  case (1 P ys)
  then show ?case by simp
next
  case (2 P x xs)
  then show ?case by simp
next
  case (3 P x xs y ys)
  from "3.prems"(1) consider "P x y" "embeds P xs ys" | "embeds P (x # xs) ys" by auto
  then show ?case
  proof cases
    case 1
    with "3.IH"(1) "3.prems"(2) have rest: "embeds Q (map f (filter p xs)) ys" by simp
    from 1 "3.prems"(2) have "Q (f x) y" by simp
    with rest show ?thesis by (auto intro: embeds_Cons_right)
  next
    case 2
    with "3.IH"(2) "3.prems"(2) have "embeds Q (map f (filter p (x # xs))) ys" by blast
    then show ?thesis by (rule embeds_Cons_right)
  qed
qed

lemma contained_prune: "contained x d \<Longrightarrow> contained (remove_empty_structures x) d"
proof (induction x arbitrary: d rule: remove_empty_structures.induct)
  case (1 kvs)
  then show ?case
    by (auto simp: list_all_iff split: option.splits)
next
  case (2 xs)
  from "2.prems" have "embeds contained xs (elems d)" and "is_list d" by auto
  then have "embeds contained
      (map remove_empty_structures (filter (\<lambda>item. \<not> is_empty (remove_empty_structures item)) xs))
      (elems d)"
    using "2.IH" by (intro embeds_filter_map [where P = contained]) auto
  with \<open>is_list d\<close> show ?case by simp
qed simp_all

lemma zip_embeds:
  "m < length xss \<Longrightarrow> (\<And>row. row \<in> set (zip_star xss) \<Longrightarrow> P (f row) (row ! m)) \<Longrightarrow>
     embeds P (filter p (map f (zip_star xss))) (xss ! m)"
proof (induction xss rule: zip_star.induct)
  case (1 xss)
  show ?case
  proof (cases "xss = [] \<or> [] \<in> set xss")
    case True
    then show ?thesis by (simp add: zip_star.simps)
  next
    case False
    then have unfold: "zip_star xss = map hd xss # zip_star (map tl xss)"
      by (subst zip_star.simps) simp
    from False "1.prems"(1) have "xss ! m \<noteq> []" by (metis nth_mem)
    then obtain y ys where cons: "xss ! m = y # ys" by (cases "xss ! m") auto
    have "P (f (map hd xss)) (map hd xss ! m)"
      using "1.prems"(2) unfold by simp
    then have first: "P (f (map hd xss)) y"
      using "1.prems"(1) cons by simp
    have "embeds P (filter p (map f (zip_star (map tl xss)))) (map tl xss ! m)"
      using False "1.prems" unfold by (intro "1.IH") auto
    then have rest: "embeds P (filter p (map f (zip_star (map tl xss)))) ys"
      using "1.prems"(1) cons by simp
    from first rest show ?thesis
      unfolding unfold cons by (auto intro: embeds_Cons_right)
  qed
qed

lemma py_eq_container:
  "py_eq d (Dict kvs) \<Longrightarrow> is_dict d" "py_eq d (List xs) \<Longrightarrow> is_list d"
  by (cases d; simp)+

lemma in_values_at:
  "d \<in> set ds \<Longrightarrow> map_of (items d) k = Some v \<Longrightarrow> v \<in> set (values_at k ds)"
  by (force simp: values_at_def List.map_filter_def)

lemma deep_intersection_contained:
  "\<forall>d\<in>set docs. contained (deep_intersection docs) d"
proof (induction docs rule: deep_intersection.induct)
  case (1 data_list)
  show ?case
  proof (cases "data_list = []")
    case True
    then show ?thesis by simp
  next
    case ne: False
    show ?thesis
    proof (cases "list_all is_dict data_list")
      case dicts: True
      let ?result = "Dict (map (\<lambda>k. (k, deep_intersection (values_at k data_list)))
                       (common_keys data_list))"
      have "contained ?result d" if d: "d \<in> set data_list" for d
      proof -
        from dicts d have "is_dict d" by (simp add: list_all_iff)
        moreover have "case map_of (items d) (fst kv) of None \<Rightarrow> False
            | Some v \<Rightarrow> contained (snd kv) v"
          if kv: "kv \<in> set (map (\<lambda>k. (k, deep_intersection (values_at k data_list)))
                          (common_keys data_list))" for kv
        proof -
          from kv obtain k where k: "k \<in> set (common_keys data_list)"
            and kv': "kv = (k, deep_intersection (values_at k data_list))" by auto
          from k d ne have "k \<in> fst ` set (items d)" by (auto simp: set_common_keys)
          then obtain v where v: "map_of (items d) k = Some v"
            by (metis domD dom_map_of_conv_image_fst)
          with d have "v \<in> set (values_at k data_list)" by (rule in_values_at)
          with "1.IH"(1) [OF ne dicts k] v kv' show ?thesis by simp
        qed
        ultimately show ?thesis unfolding contained.simps list_all_iff by blast
      qed
      then have "\<forall>d\<in>set data_list. contained (remove_empty_structures ?result) d"
        using contained_prune by blast
      with ne dicts show ?thesis by (subst deep_intersection.simps) simp
    next
      case nd: False
      show ?thesis
      proof (cases "list_all is_list data_list")
        case lists: True
        let ?rows = "zip_star (map elems data_list)"
        let ?result = "filter (\<lambda>x. \<not> is_empty x) (map deep_intersection ?rows)"
        have val: "deep_intersection data_list = (if ?result = [] then PNone else List ?result)"
          using ne nd lists by (subst deep_intersection.simps) (simp add: Let_def)
        have "contained (List ?result) d" if d: "d \<in> set data_list" for d
        proof -
          from d obtain m where m: "m < length data_list" "d = data_list ! m"
            by (auto simp: in_set_conv_nth)
          have "embeds contained ?result (map elems data_list ! m)"
          proof (rule zip_embeds)
            show "m < length (map elems data_list)" using m by simp
            fix row assume row: "row \<in> set ?rows"
            from zip_star_elem [OF row] m have "row ! m \<in> set row"
              by (auto intro: nth_mem)
            with "1.IH"(2) [OF ne nd lists row]
            show "contained (deep_intersection row) (row ! m)" by simp
          qed
          moreover from lists d have "is_list d" by (simp add: list_all_iff)
          ultimately show ?thesis using m by simp
        qed
        then show ?thesis unfolding val by simp
      next
        case nl: False
        show ?thesis
        proof (cases "list_all (\<lambda>d. py_eq d (hd data_list)) data_list")
          case eq: True
          have val: "deep_intersection data_list = hd data_list"
            using ne nd nl eq by (subst deep_intersection.simps) simp
          show ?thesis
          proof (cases "hd data_list")
            case PNone
            with val show ?thesis by simp
          next
            case (Scalar s)
            with val eq show ?thesis by (simp add: list_all_iff)
          next
            case (Dict kvs)
            with eq have "list_all is_dict data_list"
              by (auto simp: list_all_iff dest: py_eq_container)
            with nd show ?thesis by simp
          next
            case (List xs)
            with eq have "list_all is_list data_list"
              by (auto simp: list_all_iff dest: py_eq_container)
            with nl show ?thesis by simp
          qed
        next
          case False
          with ne nd nl have "deep_intersection data_list = PNone"
            by (subst deep_intersection.simps) simp
          then show ?thesis by simp
        qed
      qed
    qed
  qed
qed

lemma contained_key_path:
  "contained b d \<Longrightarrow> list_all is_str path \<Longrightarrow> get_nested b path = Inr b' \<Longrightarrow>
     \<exists>v. get_nested d path = Inr v \<and> contained b' v"
proof (induction path arbitrary: b d)
  case Nil
  then show ?case by simp
next
  case (Cons key path)
  from Cons.prems(2) obtain s where key: "key = KStr s" by (cases key) auto
  from Cons.prems(3) obtain c where c: "get_item b key = Inr c" "get_nested c path = Inr b'"
    by (auto split: sum.splits)
  from c(1) key obtain kvs where b: "b = Dict kvs" "map_of kvs key = Some c"
    by (cases "(b, key)" rule: get_item.cases) (auto split: option.splits)
  then have "(key, c) \<in> set kvs" by (auto dest: map_of_SomeD)
  with Cons.prems(1) b obtain v where v: "map_of (items d) key = Some v" "contained c v"
    and "is_dict d"
    by (auto simp: list_all_iff split: option.splits)
  then have "get_item d key = Inr v" by (cases d) auto
  moreover from Cons.IH [OF v(2) _ c(2)] Cons.prems(2)
  obtain w where "get_nested v path = Inr w" "contained b' w" by auto
  ultimately show ?case by simp
qed

text \<open>
  Claim C2, as the code has it. For a non-empty list of documents and every path of
  mapping keys (string steps) present in \<^verbatim>\<open>deep_intersection(docs)\<close>, the path exists in
  every document, and the value there equals the base's value for a scalar, or
  contains the base's substructure for a container: a mapping contains the keys of
  the base's mapping with contained values, and a sequence contains the elements of
  the base's sequence in the same order, possibly at larger indices. With the empty
  path this is containment of the whole base in every document.
\<close>

theorem deep_intersection_subset:
  assumes "docs \<noteq> []" and "d \<in> set docs" and "list_all is_str path"
    and "get_nested (deep_intersection docs) path = Inr b"
  shows "\<exists>v. get_nested d path = Inr v \<and> contained b v"
  using deep_intersection_contained assms(2) assms(3) assms(4)
  by (blast intro: contained_key_path)

text \<open>
  Containment at the path \<^verbatim>\<open>['a', 'b']\<close> of the intersection of \<^verbatim>\<open>{'a': {'b': 1, 'c': 2}}\<close>
  and \<^verbatim>\<open>{'a': {'b': True, 'c': 3}}\<close>.
\<close>

theorem deep_intersection_subset_witness:
  "[Dict [(KStr ''a'', Dict [(KStr ''b'', Scalar (SInt 1)), (KStr ''c'', Scalar (SInt 2))])],
    Dict [(KStr ''a'', Dict [(KStr ''b'', Scalar (SBool True)), (KStr ''c'', Scalar (SInt 3))])]] \<noteq> [] \<and>
   list_all is_str [KStr ''a'', KStr ''b''] \<and>
   get_nested (deep_intersection
     [Dict [(KStr ''a'', Dict [(KStr ''b'', Scalar (SInt 1)), (KStr ''c'', Scalar (SInt 2))])],
      Dict [(KStr ''a'', Dict [(KStr ''b'', Scalar (SBool True)), (KStr ''c'', Scalar (SInt 3))])]])
     [KStr ''a'', KStr ''b''] = Inr (Scalar (SInt 1)) \<and>
   (\<exists>v. get_nested
          (Dict [(KStr ''a'', Dict [(KStr ''b'', Scalar (SBool True)), (KStr ''c'', Scalar (SInt 3))])])
          [KStr ''a'', KStr ''b''] = Inr v \<and> contained (Scalar (SInt 1)) v)"
proof -
  let ?d1 = "Dict [(KStr ''a'', Dict [(KStr ''b'', Scalar (SInt 1)), (KStr ''c'', Scalar (SInt 2))])]"
  let ?d2 = "Dict [(KStr ''a'', Dict [(KStr ''b'', Scalar (SBool True)), (KStr ''c'', Scalar (SInt 3))])]"
  have ne: "[?d1, ?d2] \<noteq> []" by simp
  have mem: "?d2 \<in> set [?d1, ?d2]" by simp
  have keys: "list_all is_str [KStr ''a'', KStr ''b'']" by simp
  have base: "get_nested (deep_intersection [?d1, ?d2]) [KStr ''a'', KStr ''b''] = Inr (Scalar (SInt 1))"
    by code_simp
  from deep_intersection_subset [OF ne mem keys base] ne keys base show ?thesis by blast
qed

text \<open>
  Claim C2 as stated fails on a path through a sequence. The intersection of
  \<^verbatim>\<open>[1, 2]\<close> and \<^verbatim>\<open>[3, 2]\<close> is \<^verbatim>\<open>[2]\<close>: at the path \<^verbatim>\<open>[0]\<close> the base holds 2 and the first
  document holds 1. The intersection of \<^verbatim>\<open>[1, [5]]\<close> and \<^verbatim>\<open>[2, [5]]\<close> is \<^verbatim>\<open>[[5]]\<close>: the path
  \<^verbatim>\<open>[0, 0]\<close> of the base does not exist in the first document.
\<close>

theorem deep_intersection_shift_counterexample:
  "get_nested (deep_intersection
      [List [Scalar (SInt 1), Scalar (SInt 2)], List [Scalar (SInt 3), Scalar (SInt 2)]])
      [KInt 0] = Inr (Scalar (SInt 2)) \<and>
   get_nested (List [Scalar (SInt 1), Scalar (SInt 2)]) [KInt 0] = Inr (Scalar (SInt 1)) \<and>
   \<not> py_eq (Scalar (SInt 1)) (Scalar (SInt 2)) \<and>
   get_nested (deep_intersection
      [List [Scalar (SInt 1), List [Scalar (SInt 5)]], List [Scalar (SInt 2), List [Scalar (SInt 5)]]])
      [KInt 0, KInt 0] = Inr (Scalar (SInt 5)) \<and>
   get_nested (List [Scalar (SInt 1), List [Scalar (SInt 5)]]) [KInt 0, KInt 0] = Inl TypeError"
  by code_simp

section \<open>Properties of the path walkers\<close>

lemma py_index_less: "py_index n i = Some j \<Longrightarrow> j < n"
  by (auto simp: py_index_def split: if_splits)

lemma get_set_item: "set_item d k v = Inr d' \<Longrightarrow> get_item d' k = Inr v"
  by (induction d k v rule: set_item.induct)
     (auto simp: update_conv' py_index_less split: option.splits)

lemma set_nested_immutable:
  "\<not> is_dict d \<Longrightarrow> \<not> is_list d \<Longrightarrow> \<exists>e. set_nested d path v = Inl e"
proof (induction d path v rule: set_nested.induct)
  case (1 d v)
  then show ?case by simp
next
  case (2 d s v)
  then show ?case by (cases d) auto
next
  case (3 d i v)
  then show ?case
    by (cases "(d, i, PNone)" rule: pad_to.cases) auto
next
  case (4 d key nxt path v)
  show ?case
  proof (cases key)
    case (KStr s)
    with 4 show ?thesis by (cases d) auto
  next
    case (KInt i)
    show ?thesis
    proof (cases "pad_to d i (default_for nxt)")
      case (Inl e)
      with KInt show ?thesis by simp
    next
      case (Inr d1)
      with "4.prems" have d1: "d1 = d" "\<exists>s. d = Scalar (SStr s)"
        by (cases "(d, i, default_for nxt)" rule: pad_to.cases; auto split: if_splits)+
      show ?thesis
      proof (cases "get_item d1 key")
        case (Inl e)
        with Inr KInt show ?thesis by simp
      next
        case (Inr child)
        with d1 KInt have "\<not> is_dict child" "\<not> is_list child"
          by (auto split: option.splits)
        with "4.IH" [of d1 child] \<open>pad_to d i (default_for nxt) = Inr d1\<close> Inr KInt
        obtain e where "set_nested child (nxt # path) v = Inl e" by auto
        with Inr \<open>pad_to d i (default_for nxt) = Inr d1\<close> KInt show ?thesis by simp
      qed
    qed
  qed
qed

lemma get_replace_child:
  "is_dict d \<or> is_list d \<Longrightarrow> get_item d key = Inr child \<Longrightarrow>
     get_item (replace_child d key c) key = Inr c"
  by (cases "(d, key, c)" rule: replace_child.cases)
     (auto simp: update_conv' py_index_less split: option.splits)

lemma step_container:
  assumes "(case key of KStr s \<Rightarrow> setdefault d key x | KInt i \<Rightarrow> pad_to d i x) = Inr d1"
    and "get_item d1 key = Inr child"
    and "set_nested child path v = Inr child'"
  shows "is_dict d1 \<or> is_list d1"
proof (rule ccontr)
  assume "\<not> (is_dict d1 \<or> is_list d1)"
  then have nd: "\<not> is_dict d1" "\<not> is_list d1" by auto
  with assms(2) have "\<not> is_dict child \<and> \<not> is_list child"
    by (cases "(d1, key)" rule: get_item.cases) (auto split: option.splits)
  with set_nested_immutable [of child path v] assms(3) show False by auto
qed

text \<open>
  Claim C10. Write-then-read round trip: whenever \<^verbatim>\<open>set_nested(d, path, v)\<close> completes
  without raising, \<^verbatim>\<open>get_nested\<close> on the updated document and the same path returns
  \<^verbatim>\<open>v\<close>. A call with an empty path raises, so a completed call has a non-empty path.
\<close>

theorem set_then_get:
  "set_nested d path v = Inr d' \<Longrightarrow> get_nested d' path = Inr v"
proof (induction d path v arbitrary: d' rule: set_nested.induct)
  case (1 d v)
  then show ?case by simp
next
  case (2 d s v)
  then show ?case by (simp add: get_set_item)
next
  case (3 d i v)
  then show ?case by (auto simp: get_set_item split: sum.splits)
next
  case (4 d key nxt path v)
  let ?step = "case key of KStr s \<Rightarrow> setdefault d key (default_for nxt)
                       | KInt i \<Rightarrow> pad_to d i (default_for nxt)"
  from "4.prems" obtain d1 child child' where
    d1: "?step = Inr d1" and child: "get_item d1 key = Inr child"
    and rec: "set_nested child (nxt # path) v = Inr child'"
    and d': "d' = replace_child d1 key child'"
    by (auto split: sum.splits)
  from step_container [OF d1 child rec] have "is_dict d1 \<or> is_list d1" .
  then have "get_item d' key = Inr child'"
    unfolding d' using child by (rule get_replace_child)
  moreover from "4.IH" [OF d1 child rec] have "get_nested child' (nxt # path) = Inr v" .
  ultimately show ?case by simp
qed

text \<open>
  The round trip at \<^verbatim>\<open>set_nested({}, ['l', 1, 'x'], 3)\<close>, which creates a list, pads it and
  creates the mapping at index 1.
\<close>

theorem set_then_get_witness:
  "set_nested (Dict []) [KStr ''l'', KInt 1, KStr ''x''] (Scalar (SInt 3)) =
     Inr (Dict [(KStr ''l'', List [Dict [], Dict [(KStr ''x'', Scalar (SInt 3))]])]) \<and>
   get_nested (Dict [(KStr ''l'', List [Dict [], Dict [(KStr ''x'', Scalar (SInt 3))]])])
     [KStr ''l'', KInt 1, KStr ''x''] = Inr (Scalar (SInt 3))"
proof -
  have s: "set_nested (Dict []) [KStr ''l'', KInt 1, KStr ''x''] (Scalar (SInt 3)) =
     Inr (Dict [(KStr ''l'', List [Dict [], Dict [(KStr ''x'', Scalar (SInt 3))]])])"
    by code_simp
  from set_then_get [OF s] s show ?thesis by simp
qed













section \<open>Properties of the overlay builder\<close>

text \<open>
  Claim C8. \<^verbatim>\<open>generate_base_and_overlays\<close> short-circuits on a load failure: when one
  of the loaded documents is the failure sentinel \<^verbatim>\<open>None\<close>, the result is
  \<^verbatim>\<open>(None, [])\<close>, whatever the diff collaborator would report, and no error of the
  overlay construction can occur.
\<close>

theorem load_failure_short_circuit:
  "PNone \<in> set data_list \<Longrightarrow> generate_base_and_overlays DeepDiff data_list = Inr (PNone, [])"
  by (simp add: generate_base_and_overlays_def)

text \<open>The short circuit on two inputs whose second one failed to load.\<close>

theorem load_failure_short_circuit_witness:
  "PNone \<in> set [Dict [(KStr ''a'', Scalar (SInt 1))], PNone] \<and>
   generate_base_and_overlays (\<lambda>base full. no_differences)
     [Dict [(KStr ''a'', Scalar (SInt 1))], PNone] = Inr (PNone, [])"
  using load_failure_short_circuit
    [of "[Dict [(KStr ''a'', Scalar (SInt 1))], PNone]" "\<lambda>base full. no_differences"]
  by simp




























end
